theory Spec2Isabelle
  imports Main
begin

section \<open>Python values used by \<open>app.py\<close>\<close>

text \<open>
  A Python \<open>str\<close> is a sequence of Unicode code points; it is modelled as the list of
  its code points. \<open>S\<close> turns a literal of the source into that list.
\<close>

type_synonym pystr = "nat list"

definition S :: "string \<Rightarrow> pystr" where
  "S s = map of_char s"

text \<open>
  The code points that \<open>str.strip()\<close> removes (those for which \<open>str.isspace\<close> holds).
\<close>

definition isspace :: "nat \<Rightarrow> bool" where
  "isspace c \<longleftrightarrow>
     (9 \<le> c \<and> c \<le> 13) \<or> (28 \<le> c \<and> c \<le> 32) \<or> c = 133 \<or> c = 160 \<or> c = 5760 \<or>
     (8192 \<le> c \<and> c \<le> 8202) \<or> c = 8232 \<or> c = 8233 \<or> c = 8239 \<or> c = 8287 \<or> c = 12288"

definition strip :: "pystr \<Rightarrow> pystr" where
  "strip s = rev (dropWhile isspace (rev (dropWhile isspace s)))"

text \<open>The decimal digits of a number, as the f-string \<open>f"query_{i}"\<close> formats \<open>i\<close>.\<close>

fun str_nat :: "nat \<Rightarrow> pystr" where
  "str_nat n = (if n < 10 then [48 + n] else str_nat (n div 10) @ [48 + n mod 10])"

declare str_nat.simps [simp del]

text \<open>
  The values stored in the response dictionaries are strings and the boolean of the
  placeholder. A dictionary keeps its keys in insertion order; the keys are the
  literals of the source.
\<close>

datatype pyval = Str pystr | Bool bool

type_synonym pydict = "(string \<times> pyval) list"

section \<open>Request and response models\<close>

text \<open>
  The two request models of the source. \<open>chat_id\<close> and \<open>user_prompt\<close> are declared
  \<open>str\<close>: a body without them, or with \<open>null\<close> for them, is rejected before either
  endpoint runs, so inside the endpoints they are strings, possibly empty.
  \<open>system_prompt\<close> is declared \<open>str | None\<close> and may be \<open>None\<close>.
\<close>

record ChatRequest =
  chat_id :: pystr
  system_prompt :: "pystr option"
  user_prompt :: pystr

record BatchedRequest =
  queries :: "ChatRequest list"

section \<open>Exceptions and the model library\<close>

text \<open>
  Every exception below is an instance of Python's \<open>Exception\<close>, so the handler
  \<open>except Exception as e\<close> of both endpoints catches each of them; this includes
  \<open>HTTPException\<close>, which FastAPI derives from \<open>Exception\<close>. \<open>LibraryError\<close> stands
  for whatever the tokenizer or the model raises.
\<close>

datatype exn =
    HTTPException nat pystr
  | IndexError
  | KeyError
  | LibraryError pystr

text \<open>
  The tokenizer is called with one prompt by \<open>chat\<close> and with a list of prompts by
  \<open>generate_batch\<close>.
\<close>

datatype tok_arg = Single pystr | Batch "pystr list"

text \<open>
  The globals \<open>tokenizer\<close> and \<open>model\<close> are not part of the repository. They are
  parameters of the model: \<open>tokenizer\<close> is the call \<open>tokenizer(...).to(device)\<close>,
  \<open>generate\<close> is \<open>model.generate\<close>, whose result is iterated row by row, and
  \<open>decode\<close> is \<open>tokenizer.decode\<close>. Each of them may raise. \<open>str_exc\<close> is Python's
  \<open>str(e)\<close> on an exception.
\<close>

record ('i, 'o) env =
  tokenizer :: "tok_arg \<Rightarrow> exn + 'i"
  generate :: "'i \<Rightarrow> exn + 'o list"
  decode :: "'o \<Rightarrow> exn + pystr"
  str_exc :: "exn \<Rightarrow> pystr"

text \<open>
  Every call into the library is recorded, in the order in which the code makes it, so
  that what reaches the inference engine can be stated. Each endpoint returns its result
  (\<open>Inl\<close> for a raised exception, \<open>Inr\<close> for the returned value) together with the list
  of the calls it made.
\<close>

datatype ('i, 'o) event =
    is_Tokenize: Tokenize tok_arg
  | is_Generate: Generate 'i
  | is_Decode: Decode 'o

section \<open>The batch endpoint\<close>

text \<open>
  First pass of \<open>generate_batch\<close>: the loop \<open>for i, q in enumerate(req.queries)\<close>
  over the three accumulators \<open>responses\<close>, \<open>valid_prompts\<close> and \<open>valid_indices\<close>.
  \<open>not s\<close> on a string is \<open>s = []\<close>; \<open>q.chat_id or f"query_{i}"\<close> is the \<open>chat_id\<close>
  unless it is empty; \<open>q.system_prompt or ""\<close> is the system prompt, and the empty
  string for \<open>None\<close> (and for the empty string itself); the newline is code point 10.
\<close>

fun first_pass ::
  "nat \<Rightarrow> ChatRequest list \<Rightarrow> pydict list \<Rightarrow> pystr list \<Rightarrow> nat list
    \<Rightarrow> pydict list \<times> pystr list \<times> nat list" where
  "first_pass i [] responses valid_prompts valid_indices =
     (responses, valid_prompts, valid_indices)"
| "first_pass i (q # qs) responses valid_prompts valid_indices =
     (if chat_id q = [] \<or> strip (chat_id q) = [] then
        first_pass (Suc i) qs
          (responses @
            [[(''chat_id'', Str (if chat_id q \<noteq> [] then chat_id q else S ''query_'' @ str_nat i)),
              (''error'', Str (S ''chat_id is required and cannot be empty''))]])
          valid_prompts valid_indices
      else if user_prompt q = [] \<or> strip (user_prompt q) = [] then
        first_pass (Suc i) qs
          (responses @
            [[(''chat_id'', Str (chat_id q)),
              (''error'', Str (S ''user_prompt is required and cannot be empty''))]])
          valid_prompts valid_indices
      else
        first_pass (Suc i) qs
          (responses @ [[(''placeholder'', Bool True), (''chat_id'', Str (chat_id q))]])
          (valid_prompts @
            [(case system_prompt q of None \<Rightarrow> [] | Some s \<Rightarrow> s) @ [10] @ user_prompt q])
          (valid_indices @ [length responses]))"

text \<open>
  Second loop of \<open>generate_batch\<close>: \<open>for j, output in enumerate(outputs)\<close>. Decoding may
  raise, \<open>valid_indices[j]\<close> and \<open>responses[response_index]\<close> raise \<open>IndexError\<close> out
  of range, and reading the key \<open>"chat_id"\<close> raises \<open>KeyError\<close> when it is missing.
\<close>

fun replace_placeholders ::
  "('i, 'o) env \<Rightarrow> nat list \<Rightarrow> nat \<Rightarrow> 'o list \<Rightarrow> pydict list
    \<Rightarrow> (exn + pydict list) \<times> ('i, 'o) event list" where
  "replace_placeholders e valid_indices j [] responses = (Inr responses, [])"
| "replace_placeholders e valid_indices j (output # outputs) responses =
     (case decode e output of
        Inl x \<Rightarrow> (Inl x, [Decode output])
      | Inr text \<Rightarrow>
          if \<not> j < length valid_indices then (Inl IndexError, [Decode output])
          else
            let response_index = valid_indices ! j in
            if \<not> response_index < length responses then (Inl IndexError, [Decode output])
            else
              (case map_of (responses ! response_index) ''chat_id'' of
                 None \<Rightarrow> (Inl KeyError, [Decode output])
               | Some cid \<Rightarrow>
                   let (r, t) =
                     replace_placeholders e valid_indices (Suc j) outputs
                       (responses[response_index := [(''chat_id'', cid), (''response'', Str text)]])
                   in (r, Decode output # t)))"

text \<open>
  The body of the \<open>try\<close> block of \<open>generate_batch\<close>. Its value is the list that the
  source returns under the key \<open>"responses"\<close>.
\<close>

definition generate_batch_try ::
  "('i, 'o) env \<Rightarrow> BatchedRequest \<Rightarrow> (exn + pydict list) \<times> ('i, 'o) event list" where
  "generate_batch_try e req =
     (if queries req = [] then
        (Inl (HTTPException 400 (S ''queries array required and must be non-empty'')), [])
      else
        let (responses, valid_prompts, valid_indices) = first_pass 0 (queries req) [] [] [] in
        if valid_prompts \<noteq> [] then
          (case tokenizer e (Batch valid_prompts) of
             Inl x \<Rightarrow> (Inl x, [Tokenize (Batch valid_prompts)])
           | Inr inputs \<Rightarrow>
               (case generate e inputs of
                  Inl x \<Rightarrow> (Inl x, [Tokenize (Batch valid_prompts), Generate inputs])
                | Inr outputs \<Rightarrow>
                    let (r, t) = replace_placeholders e valid_indices 0 outputs responses in
                    (r, Tokenize (Batch valid_prompts) # Generate inputs # t)))
        else (Inr responses, []))"

text \<open>
  The handler \<open>except Exception as e: raise HTTPException(status_code=500, detail=str(e))\<close>
  around a \<open>try\<close> block.
\<close>

definition except_Exception ::
  "('i, 'o) env \<Rightarrow> (exn + 'a) \<times> ('i, 'o) event list \<Rightarrow> (exn + 'a) \<times> ('i, 'o) event list" where
  "except_Exception e r =
     (case r of
        (Inl x, t) \<Rightarrow> (Inl (HTTPException 500 (str_exc e x)), t)
      | (Inr v, t) \<Rightarrow> (Inr v, t))"

definition generate_batch ::
  "('i, 'o) env \<Rightarrow> BatchedRequest \<Rightarrow> (exn + pydict list) \<times> ('i, 'o) event list" where
  "generate_batch e req = except_Exception e (generate_batch_try e req)"

section \<open>The single-chat endpoint\<close>

definition chat_try ::
  "('i, 'o) env \<Rightarrow> ChatRequest \<Rightarrow> (exn + pydict) \<times> ('i, 'o) event list" where
  "chat_try e req =
     (if chat_id req = [] \<or> user_prompt req = [] then
        (Inl (HTTPException 400 (S ''chat_id and user_prompt are required'')), [])
      else
        let prompt = (case system_prompt req of None \<Rightarrow> [] | Some s \<Rightarrow> s) @ [10] @ user_prompt req in
        (case tokenizer e (Single prompt) of
           Inl x \<Rightarrow> (Inl x, [Tokenize (Single prompt)])
         | Inr inputs \<Rightarrow>
             (case generate e inputs of
                Inl x \<Rightarrow> (Inl x, [Tokenize (Single prompt), Generate inputs])
              | Inr [] \<Rightarrow> (Inl IndexError, [Tokenize (Single prompt), Generate inputs])
              | Inr (output # _) \<Rightarrow>
                  (case decode e output of
                     Inl x \<Rightarrow> (Inl x, [Tokenize (Single prompt), Generate inputs, Decode output])
                   | Inr text \<Rightarrow>
                       (Inr [(''chat_id'', Str (chat_id req)), (''response'', Str text)],
                        [Tokenize (Single prompt), Generate inputs, Decode output])))))"

definition chat ::
  "('i, 'o) env \<Rightarrow> ChatRequest \<Rightarrow> (exn + pydict) \<times> ('i, 'o) event list" where
  "chat e req = except_Exception e (chat_try e req)"

section \<open>Notions of the specification\<close>

text \<open>
  A request passes validation when neither its \<open>chat_id\<close> nor its \<open>user_prompt\<close> is
  blank after trimming. The source tests \<open>not s or s.strip() == ""\<close>; the empty string
  strips to itself, so the first disjunct adds nothing.
\<close>

definition is_valid :: "ChatRequest \<Rightarrow> bool" where
  "is_valid q \<longleftrightarrow> strip (chat_id q) \<noteq> [] \<and> strip (user_prompt q) \<noteq> []"

text \<open>
  The PromptText of the specification: the system prompt (the empty string when it is
  absent), a newline (code point 10), then the user prompt.
\<close>

definition PromptText :: "ChatRequest \<Rightarrow> pystr" where
  "PromptText q = (case system_prompt q of None \<Rightarrow> [] | Some s \<Rightarrow> s) @ [10] @ user_prompt q"

text \<open>
  What the first pass leaves at position \<open>i\<close> for the request \<open>q\<close>: one of the two
  error results, or the temporary placeholder.
\<close>

definition entry :: "nat \<Rightarrow> ChatRequest \<Rightarrow> pydict" where
  "entry i q =
     (if strip (chat_id q) = [] then
        [(''chat_id'', Str (if chat_id q \<noteq> [] then chat_id q else S ''query_'' @ str_nat i)),
         (''error'', Str (S ''chat_id is required and cannot be empty''))]
      else if strip (user_prompt q) = [] then
        [(''chat_id'', Str (chat_id q)),
         (''error'', Str (S ''user_prompt is required and cannot be empty''))]
      else [(''placeholder'', Bool True), (''chat_id'', Str (chat_id q))])"

text \<open>
  A success result carries the key \<open>"response"\<close> and not \<open>"error"\<close>; an error result
  carries \<open>"error"\<close> and not \<open>"response"\<close>.
\<close>

definition is_success :: "pydict \<Rightarrow> bool" where
  "is_success d \<longleftrightarrow> map_of d ''response'' \<noteq> None \<and> map_of d ''error'' = None"

definition is_error :: "pydict \<Rightarrow> bool" where
  "is_error d \<longleftrightarrow> map_of d ''error'' \<noteq> None \<and> map_of d ''response'' = None"

text \<open>
  The contract of the inference engine in the specification: for the list of prompts it
  returns one generated string per prompt, in matching order. In terms of the library
  calls: tokenizing and generating succeed, there is one output row per prompt, and the
  rows decode to \<open>texts\<close>.
\<close>

definition engine_answers :: "('i, 'o) env \<Rightarrow> pystr list \<Rightarrow> pystr list \<Rightarrow> bool" where
  "engine_answers e prompts texts \<longleftrightarrow>
     (case tokenizer e (Batch prompts) of
        Inl x \<Rightarrow> False
      | Inr inputs \<Rightarrow>
          (case generate e inputs of
             Inl x \<Rightarrow> False
           | Inr outputs \<Rightarrow>
               length outputs = length prompts \<and> map (decode e) outputs = map Inr texts))"

text \<open>
  The engine fails on the list of prompts when tokenizing raises, generating raises, or
  decoding one of the output rows raises.
\<close>

definition engine_fails :: "('i, 'o) env \<Rightarrow> pystr list \<Rightarrow> bool" where
  "engine_fails e prompts \<longleftrightarrow>
     (case tokenizer e (Batch prompts) of
        Inl x \<Rightarrow> True
      | Inr inputs \<Rightarrow>
          (case generate e inputs of
             Inl x \<Rightarrow> True
           | Inr outputs \<Rightarrow> \<exists>out\<in>set outputs. isl (decode e out)))"

text \<open>
  The weaker contract that only fixes the number of output rows: whenever the library
  returns rows for the prompts, it returns one row per prompt.
\<close>

definition one_output_per_prompt :: "('i, 'o) env \<Rightarrow> pystr list \<Rightarrow> bool" where
  "one_output_per_prompt e prompts \<longleftrightarrow>
     (case tokenizer e (Batch prompts) of
        Inl x \<Rightarrow> True
      | Inr inputs \<Rightarrow>
          (case generate e inputs of
             Inl x \<Rightarrow> True
           | Inr outputs \<Rightarrow> length outputs = length prompts))"

section \<open>A substitute engine and sample requests\<close>

text \<open>
  An engine that answers every prompt with the prompt itself, and one whose
  \<open>model.generate\<close> raises. The samples interleave invalid and valid requests
  (invalid, valid, invalid, valid) and give a batch without any valid request.
\<close>

definition echo_engine :: "(pystr list, pystr) env" where
  "echo_engine =
     \<lparr>tokenizer = (\<lambda>a. case a of Single p \<Rightarrow> Inr [p] | Batch ps \<Rightarrow> Inr ps),
      generate = (\<lambda>inputs. Inr inputs),
      decode = (\<lambda>output. Inr output),
      str_exc = (\<lambda>x. case x of
          HTTPException c d \<Rightarrow> str_nat c @ S '': '' @ d
        | IndexError \<Rightarrow> S ''list index out of range''
        | KeyError \<Rightarrow> S ''chat_id''
        | LibraryError m \<Rightarrow> m)\<rparr>"

definition broken_engine :: "(pystr list, pystr) env" where
  "broken_engine = echo_engine\<lparr>generate := (\<lambda>inputs. Inl (LibraryError (S ''out of memory'')))\<rparr>"

definition sample_request :: BatchedRequest where
  "sample_request =
     \<lparr>queries =
        [\<lparr>chat_id = [], system_prompt = None, user_prompt = S ''hi''\<rparr>,
         \<lparr>chat_id = S ''b'', system_prompt = Some (S ''be brief''), user_prompt = S ''hi''\<rparr>,
         \<lparr>chat_id = S ''c'', system_prompt = None, user_prompt = S '' ''\<rparr>,
         \<lparr>chat_id = S ''d'', system_prompt = Some [], user_prompt = S ''yo''\<rparr>]\<rparr>"

definition blank_request :: BatchedRequest where
  "blank_request =
     \<lparr>queries =
        [\<lparr>chat_id = S '' '', system_prompt = None, user_prompt = S ''hi''\<rparr>,
         \<lparr>chat_id = S ''a'', system_prompt = None, user_prompt = []\<rparr>]\<rparr>"

section \<open>The first pass in closed form\<close>

lemma strip_Nil [simp]: "strip [] = []"
  by (simp add: strip_def)

lemma first_pass_eq:
  "first_pass i qs rs ps ix =
     (rs @ map (\<lambda>(k, q). entry k q) (enumerate i qs),
      ps @ map PromptText (filter is_valid qs),
      ix @ map fst (filter (\<lambda>(k, q). is_valid q) (enumerate (length rs) qs)))"
proof (induction qs arbitrary: i rs ps ix)
  case Nil
  show ?case by simp
next
  case (Cons q qs)
  show ?case
    by (cases "strip (chat_id q) = []"; cases "strip (user_prompt q) = []";
        cases "chat_id q = []"; cases "user_prompt q = []";
        simp add: Cons.IH entry_def is_valid_def PromptText_def)
qed

lemma first_pass_0:
  "first_pass 0 qs [] [] [] =
     (map (\<lambda>(k, q). entry k q) (enumerate 0 qs),
      map PromptText (filter is_valid qs),
      map fst (filter (\<lambda>(k, q). is_valid q) (enumerate 0 qs)))"
  by (simp add: first_pass_eq)

lemma entries_nth:
  "i < length qs \<Longrightarrow> map (\<lambda>(k, q). entry k q) (enumerate n qs) ! i = entry (n + i) (qs ! i)"
  by (simp add: nth_enumerate_eq)

lemma first_pass_nth:
  "i < length qs \<Longrightarrow> fst (first_pass 0 qs [] [] []) ! i = entry i (qs ! i)"
  using entries_nth [of i qs 0] by (simp add: first_pass_0)

lemma valid_positions_nth:
  "i < length qs \<Longrightarrow> is_valid (qs ! i) \<Longrightarrow>
   map fst (filter (\<lambda>(k, q). is_valid q) (enumerate n qs)) ! length (filter is_valid (take i qs)) = n + i"
proof (induction qs arbitrary: n i)
  case Nil
  then show ?case by simp
next
  case (Cons q qs)
  show ?case
  proof (cases i)
    case 0
    with Cons.prems show ?thesis by simp
  next
    case (Suc i')
    with Cons.prems Cons.IH [of i' "Suc n"] show ?thesis by simp
  qed
qed

lemma valid_positions_length:
  "length (filter (\<lambda>(k, q). is_valid q) (enumerate n qs)) = length (filter is_valid qs)"
  by (induction qs arbitrary: n) simp_all

lemma valid_positions_set:
  "p \<in> set (map fst (filter (\<lambda>(k, q). is_valid q) (enumerate n qs))) \<longleftrightarrow>
     n \<le> p \<and> p < n + length qs \<and> is_valid (qs ! (p - n))"
  by (force simp: in_set_enumerate_eq image_iff)

lemma valid_positions_distinct:
  "distinct (map fst (filter (\<lambda>(k, q). is_valid q) (enumerate n qs)))"
  by (rule distinct_map_filter) simp

lemma first_pass_indices_mem:
  "p \<in> set (snd (snd (first_pass 0 qs [] [] []))) \<longleftrightarrow> p < length qs \<and> is_valid (qs ! p)"
  unfolding first_pass_0 snd_conv by (simp only: valid_positions_set) simp

lemma rank_less:
  assumes "i < length qs" and "is_valid (qs ! i)"
  shows "length (filter is_valid (take i qs)) < length (filter is_valid qs)"
proof -
  from assms(1) have "qs = take i qs @ qs ! i # drop (Suc i) qs"
    by (rule id_take_nth_drop)
  then have "filter is_valid qs = filter is_valid (take i qs) @ filter is_valid (qs ! i # drop (Suc i) qs)"
    by (metis filter_append)
  with assms(2) show ?thesis by simp
qed

lemma entry_valid:
  "is_valid q \<Longrightarrow> entry i q = [(''placeholder'', Bool True), (''chat_id'', Str (chat_id q))]"
  by (simp add: entry_def is_valid_def)

lemma entry_chat_id:
  "map_of (entry i q) ''chat_id'' =
     Some (Str (if chat_id q \<noteq> [] then chat_id q else S ''query_'' @ str_nat i))"
  by (auto simp: entry_def)

lemma entry_invalid_error: "\<not> is_valid q \<Longrightarrow> is_error (entry i q)"
  by (auto simp: entry_def is_valid_def is_error_def)

lemma entry_invalid_not_success: "\<not> is_valid q \<Longrightarrow> \<not> is_success (entry i q)"
  by (auto simp: entry_def is_valid_def is_success_def)

lemma entry_invalid_keys:
  "\<not> is_valid q \<Longrightarrow> map fst (entry i q) = [''chat_id'', ''error''] \<and>
     map_of (entry i q) ''placeholder'' = None"
  by (auto simp: entry_def is_valid_def)

lemma is_valid_chat_id: "is_valid q \<Longrightarrow> chat_id q \<noteq> []"
  by (auto simp: is_valid_def)

lemma is_valid_user_prompt: "is_valid q \<Longrightarrow> user_prompt q \<noteq> []"
  by (auto simp: is_valid_def)

lemma prompts_by_position:
  "map PromptText (filter is_valid qs) =
     map (\<lambda>k. PromptText (qs ! k)) (filter (\<lambda>k. is_valid (qs ! k)) [0..<length qs])"
proof -
  have "filter is_valid (map ((!) qs) [0..<length qs]) =
      map ((!) qs) (filter (\<lambda>k. is_valid (qs ! k)) [0..<length qs])"
    by (simp add: filter_map comp_def)
  then have "filter is_valid qs = map ((!) qs) (filter (\<lambda>k. is_valid (qs ! k)) [0..<length qs])"
    by (simp add: map_nth)
  then show ?thesis by (simp add: comp_def)
qed

section \<open>The reassembly loop\<close>

lemma replace_placeholders_step:
  assumes "decode e out = Inr text" and "j < length ix" and "ix ! j < length rs"
    and "map_of (rs ! (ix ! j)) ''chat_id'' = Some cid"
  shows "replace_placeholders e ix j (out # outs) rs =
     (fst (replace_placeholders e ix (Suc j) outs (rs[ix ! j := [(''chat_id'', cid), (''response'', Str text)]])),
      Decode out # snd (replace_placeholders e ix (Suc j) outs (rs[ix ! j := [(''chat_id'', cid), (''response'', Str text)]])))"
  using assms by (simp add: Let_def split: prod.splits)

lemma replace_placeholders_stop:
  assumes "\<not> (\<exists>text cid. decode e out = Inr text \<and> j < length ix \<and> ix ! j < length rs \<and>
     map_of (rs ! (ix ! j)) ''chat_id'' = Some cid)"
  shows "isl (fst (replace_placeholders e ix j (out # outs) rs)) \<and>
     snd (replace_placeholders e ix j (out # outs) rs) = [Decode out]"
  using assms by (auto simp: Let_def split: sum.splits option.splits)

lemma replace_placeholders_Inr_step:
  assumes "fst (replace_placeholders e ix j (out # outs) rs) = Inr rs'"
  obtains tx cid where "decode e out = Inr tx" and "j < length ix" and "ix ! j < length rs"
    and "map_of (rs ! (ix ! j)) ''chat_id'' = Some cid"
    and "fst (replace_placeholders e ix (Suc j) outs (rs[ix ! j := [(''chat_id'', cid), (''response'', Str tx)]])) = Inr rs'"
proof (cases "\<exists>text cid. decode e out = Inr text \<and> j < length ix \<and> ix ! j < length rs \<and>
     map_of (rs ! (ix ! j)) ''chat_id'' = Some cid")
  case True
  then obtain tx cid where *: "decode e out = Inr tx" "j < length ix" "ix ! j < length rs"
    "map_of (rs ! (ix ! j)) ''chat_id'' = Some cid" by blast
  from assms show ?thesis
    unfolding replace_placeholders_step [OF *] using * that by simp
next
  case False
  from replace_placeholders_stop [OF False, of outs] assms show ?thesis by simp
qed

lemma replace_placeholders_length:
  "fst (replace_placeholders e ix j outs rs) = Inr rs' \<Longrightarrow> length rs' = length rs"
proof (induction outs arbitrary: j rs)
  case Nil
  then show ?case by simp
next
  case (Cons out outs)
  from Cons.prems show ?case
  proof (rule replace_placeholders_Inr_step)
    fix tx cid
    assume "fst (replace_placeholders e ix (Suc j) outs
      (rs[ix ! j := [(''chat_id'', cid), (''response'', Str tx)]])) = Inr rs'"
    from Cons.IH [OF this] show ?thesis by simp
  qed
qed

lemma replace_placeholders_other:
  "fst (replace_placeholders e ix j outs rs) = Inr rs' \<Longrightarrow> p \<notin> set (drop j ix) \<Longrightarrow> rs' ! p = rs ! p"
proof (induction outs arbitrary: j rs)
  case Nil
  then show ?case by simp
next
  case (Cons out outs)
  from Cons.prems(1) show ?case
  proof (rule replace_placeholders_Inr_step)
    fix tx cid
    assume j: "j < length ix"
      and run: "fst (replace_placeholders e ix (Suc j) outs
        (rs[ix ! j := [(''chat_id'', cid), (''response'', Str tx)]])) = Inr rs'"
    from j have split: "drop j ix = ix ! j # drop (Suc j) ix"
      by (simp add: Cons_nth_drop_Suc)
    with Cons.prems(2) have "p \<notin> set (drop (Suc j) ix)" and "ix ! j \<noteq> p" by auto
    from Cons.IH [OF run this(1)] this(2) show ?thesis by simp
  qed
qed

lemma replace_placeholders_trace:
  "\<exists>n. snd (replace_placeholders e ix j outs rs) = map Decode (take n outs)"
proof (induction outs arbitrary: j rs)
  case Nil
  then show ?case by simp
next
  case (Cons out outs)
  show ?case
  proof (cases "\<exists>text cid. decode e out = Inr text \<and> j < length ix \<and> ix ! j < length rs \<and>
     map_of (rs ! (ix ! j)) ''chat_id'' = Some cid")
    case True
    then obtain tx cid where *: "decode e out = Inr tx" "j < length ix" "ix ! j < length rs"
      "map_of (rs ! (ix ! j)) ''chat_id'' = Some cid" by blast
    from Cons.IH obtain n where
      "snd (replace_placeholders e ix (Suc j) outs
         (rs[ix ! j := [(''chat_id'', cid), (''response'', Str tx)]])) = map Decode (take n outs)"
      by blast
    then have "snd (replace_placeholders e ix j (out # outs) rs) = map Decode (take (Suc n) (out # outs))"
      unfolding replace_placeholders_step [OF *] by simp
    then show ?thesis ..
  next
    case False
    from replace_placeholders_stop [OF False, of outs]
    have "snd (replace_placeholders e ix j (out # outs) rs) = map Decode (take (Suc 0) (out # outs))"
      by simp
    then show ?thesis ..
  qed
qed

lemma replace_placeholders_fail:
  "out \<in> set outs \<Longrightarrow> decode e out = Inl x \<Longrightarrow> isl (fst (replace_placeholders e ix j outs rs))"
proof (induction outs arbitrary: j rs)
  case Nil
  then show ?case by simp
next
  case (Cons a outs)
  show ?case
  proof (cases "\<exists>text cid. decode e a = Inr text \<and> j < length ix \<and> ix ! j < length rs \<and>
     map_of (rs ! (ix ! j)) ''chat_id'' = Some cid")
    case True
    then obtain tx cid where *: "decode e a = Inr tx" "j < length ix" "ix ! j < length rs"
      "map_of (rs ! (ix ! j)) ''chat_id'' = Some cid" by blast
    with Cons.prems have "out \<in> set outs" by auto
    from Cons.IH [OF this Cons.prems(2)] show ?thesis
      unfolding replace_placeholders_step [OF *] by simp
  next
    case False
    from replace_placeholders_stop [OF False, of outs] show ?thesis by simp
  qed
qed

lemma replace_placeholders_ok:
  assumes "map (decode e) outs = map Inr texts"
    and "j + length outs \<le> length ix"
    and "distinct ix"
    and "\<forall>k<length ix. ix ! k < length rs"
    and "\<forall>k<length ix. j \<le> k \<longrightarrow> map_of (rs ! (ix ! k)) ''chat_id'' = Some (c k)"
  shows "\<exists>rs'. replace_placeholders e ix j outs rs = (Inr rs', map Decode outs) \<and>
           (\<forall>k. j \<le> k \<and> k < j + length outs \<longrightarrow>
              rs' ! (ix ! k) = [(''chat_id'', c k), (''response'', Str (texts ! (k - j)))])"
  using assms
proof (induction outs arbitrary: j rs texts)
  case Nil
  then show ?case by auto
next
  case (Cons out outs)
  from Cons.prems(1) obtain t ts where texts: "texts = t # ts" and dec: "decode e out = Inr t"
    and rest: "map (decode e) outs = map Inr ts"
    by (cases texts) auto
  from Cons.prems(2) have j: "j < length ix" by simp
  with Cons.prems(4) have bound: "ix ! j < length rs" by simp
  from Cons.prems(5) j have cid: "map_of (rs ! (ix ! j)) ''chat_id'' = Some (c j)" by simp
  define new where "new = [(''chat_id'', c j), (''response'', Str t)]"
  define rs1 where "rs1 = rs[ix ! j := new]"
  have differ: "ix ! k \<noteq> ix ! j" if "k < length ix" "Suc j \<le> k" for k
    using that j Cons.prems(3) by (simp add: nth_eq_iff_index_eq)
  have "\<exists>rs'. replace_placeholders e ix (Suc j) outs rs1 = (Inr rs', map Decode outs) \<and>
           (\<forall>k. Suc j \<le> k \<and> k < Suc j + length outs \<longrightarrow>
              rs' ! (ix ! k) = [(''chat_id'', c k), (''response'', Str (ts ! (k - Suc j)))])"
  proof (rule Cons.IH [OF rest _ Cons.prems(3)])
    show "Suc j + length outs \<le> length ix" using Cons.prems(2) by simp
    show "\<forall>k<length ix. ix ! k < length rs1" using Cons.prems(4) by (simp add: rs1_def)
    show "\<forall>k<length ix. Suc j \<le> k \<longrightarrow> map_of (rs1 ! (ix ! k)) ''chat_id'' = Some (c k)"
    proof (intro allI impI)
      fix k assume k: "k < length ix" "Suc j \<le> k"
      from differ [OF k] have "rs1 ! (ix ! k) = rs ! (ix ! k)" by (simp add: rs1_def)
      with Cons.prems(5) k show "map_of (rs1 ! (ix ! k)) ''chat_id'' = Some (c k)" by simp
    qed
  qed
  then obtain rs' where run: "replace_placeholders e ix (Suc j) outs rs1 = (Inr rs', map Decode outs)"
    and upd: "\<And>k. Suc j \<le> k \<Longrightarrow> k < Suc j + length outs \<Longrightarrow>
              rs' ! (ix ! k) = [(''chat_id'', c k), (''response'', Str (ts ! (k - Suc j)))]"
    by blast
  have whole: "replace_placeholders e ix j (out # outs) rs = (Inr rs', map Decode (out # outs))"
    unfolding replace_placeholders_step [OF dec j bound cid] using run
    by (simp add: rs1_def new_def)
  have here: "rs' ! (ix ! j) = new"
  proof -
    from j have "ix = take j ix @ ix ! j # drop (Suc j) ix"
      by (rule id_take_nth_drop)
    with Cons.prems(3) have "distinct (take j ix @ ix ! j # drop (Suc j) ix)" by simp
    then have "ix ! j \<notin> set (drop (Suc j) ix)" by simp
    moreover from run have "fst (replace_placeholders e ix (Suc j) outs rs1) = Inr rs'" by simp
    ultimately have "rs' ! (ix ! j) = rs1 ! (ix ! j)" by (rule replace_placeholders_other [rotated])
    with bound show ?thesis by (simp add: rs1_def)
  qed
  have "rs' ! (ix ! k) = [(''chat_id'', c k), (''response'', Str (texts ! (k - j)))]"
    if "j \<le> k" "k < j + length (out # outs)" for k
  proof (cases "k = j")
    case True
    with here show ?thesis by (simp add: new_def texts)
  next
    case False
    with that have "Suc j \<le> k" "k < Suc j + length outs" by simp_all
    from upd [OF this] that False show ?thesis by (simp add: texts Suc_diff_le)
  qed
  with whole show ?case by blast
qed

lemma decodes_succeed:
  assumes "\<forall>out\<in>set outs. \<not> isl (decode e out)"
  shows "map (decode e) outs = map Inr (map (\<lambda>out. projr (decode e out)) outs)"
  using assms by (induction outs) simp_all

section \<open>The exception handler and the endpoints\<close>

lemma except_Exception_snd: "snd (except_Exception e r) = snd r"
  by (cases r; cases "fst r") (auto simp: except_Exception_def)

lemma except_Exception_Inr: "fst (except_Exception e r) = Inr v \<longleftrightarrow> fst r = Inr v"
  by (cases r; cases "fst r") (auto simp: except_Exception_def)

lemma except_Exception_Inl:
  "fst r = Inl x \<Longrightarrow> fst (except_Exception e r) = Inl (HTTPException 500 (str_exc e x))"
  by (cases r) (auto simp: except_Exception_def)

lemma generate_batch_try_ok:
  assumes req: "queries req = qs"
    and nonempty: "qs \<noteq> []"
    and engine: "filter is_valid qs = [] \<or> engine_answers e (map PromptText (filter is_valid qs)) texts"
  shows "\<exists>rs. fst (generate_batch_try e req) = Inr rs \<and> length rs = length qs \<and>
     (\<forall>i<length qs. rs ! i =
        (if is_valid (qs ! i) then
           [(''chat_id'', Str (chat_id (qs ! i))),
            (''response'', Str (texts ! length (filter is_valid (take i qs))))]
         else entry i (qs ! i)))"
proof -
  define R where "R = map (\<lambda>(k, q). entry k q) (enumerate 0 qs)"
  define PS where "PS = map PromptText (filter is_valid qs)"
  define IX where "IX = map fst (filter (\<lambda>(k, q). is_valid q) (enumerate 0 qs))"
  have fp: "first_pass 0 qs [] [] [] = (R, PS, IX)"
    by (simp add: first_pass_0 R_def PS_def IX_def)
  have lenR: "length R = length qs" by (simp add: R_def)
  have R_nth: "R ! i = entry i (qs ! i)" if "i < length qs" for i
    using entries_nth [OF that, of 0] by (simp add: R_def)
  have IX_mem: "p \<in> set IX \<longleftrightarrow> p < length qs \<and> is_valid (qs ! p)" for p
    unfolding IX_def by (simp only: valid_positions_set) simp
  show ?thesis
  proof (cases "filter is_valid qs = []")
    case True
    then have none: "\<not> is_valid (qs ! i)" if "i < length qs" for i
      using that by (metis filter_empty_conv nth_mem)
    from True have "PS = []" by (simp add: PS_def)
    with nonempty fp have "fst (generate_batch_try e req) = Inr R"
      by (simp add: generate_batch_try_def req)
    with lenR R_nth none show ?thesis by simp
  next
    case False
    with engine have ans: "engine_answers e PS texts" by (simp add: PS_def)
    then obtain inputs outs where tok: "tokenizer e (Batch PS) = Inr inputs"
      and gen: "generate e inputs = Inr outs"
      and len: "length outs = length PS"
      and dec: "map (decode e) outs = map Inr texts"
      by (auto simp: engine_answers_def split: sum.splits)
    have lenIX: "length IX = length PS"
      by (simp add: IX_def PS_def valid_positions_length)
    have "\<exists>rs'. replace_placeholders e IX 0 outs R = (Inr rs', map Decode outs) \<and>
           (\<forall>k. 0 \<le> k \<and> k < 0 + length outs \<longrightarrow>
              rs' ! (IX ! k) = [(''chat_id'', Str (chat_id (qs ! (IX ! k)))), (''response'', Str (texts ! (k - 0)))])"
    proof (rule replace_placeholders_ok [OF dec])
      show "0 + length outs \<le> length IX" by (simp add: len lenIX)
      show "distinct IX" unfolding IX_def by (rule valid_positions_distinct)
      show "\<forall>k<length IX. IX ! k < length R"
        using IX_mem lenR by (metis nth_mem)
      show "\<forall>k<length IX. 0 \<le> k \<longrightarrow> map_of (R ! (IX ! k)) ''chat_id'' = Some (Str (chat_id (qs ! (IX ! k))))"
      proof (intro allI impI)
        fix k assume "k < length IX"
        then have "IX ! k \<in> set IX" by simp
        then have "IX ! k < length qs" "is_valid (qs ! (IX ! k))" by (simp_all add: IX_mem)
        then show "map_of (R ! (IX ! k)) ''chat_id'' = Some (Str (chat_id (qs ! (IX ! k))))"
          by (simp add: R_nth entry_valid)
      qed
    qed
    then obtain rs' where run: "replace_placeholders e IX 0 outs R = (Inr rs', map Decode outs)"
      and upd: "\<And>k. k < length outs \<Longrightarrow>
          rs' ! (IX ! k) = [(''chat_id'', Str (chat_id (qs ! (IX ! k)))), (''response'', Str (texts ! k))]"
      by auto
    from run have fst_run: "fst (replace_placeholders e IX 0 outs R) = Inr rs'" by simp
    from False have "PS \<noteq> []" by (simp add: PS_def)
    with nonempty fp tok gen run have res: "fst (generate_batch_try e req) = Inr rs'"
      by (simp add: generate_batch_try_def req)
    have len': "length rs' = length qs"
      using replace_placeholders_length [OF fst_run] lenR by simp
    have "rs' ! i =
        (if is_valid (qs ! i) then
           [(''chat_id'', Str (chat_id (qs ! i))),
            (''response'', Str (texts ! length (filter is_valid (take i qs))))]
         else entry i (qs ! i))" if i: "i < length qs" for i
    proof (cases "is_valid (qs ! i)")
      case True
      define k where "k = length (filter is_valid (take i qs))"
      from valid_positions_nth [OF i True, of 0] have "IX ! k = i" by (simp add: IX_def k_def)
      moreover from rank_less [OF i True] have "k < length outs"
        by (simp add: k_def len PS_def)
      ultimately show ?thesis using upd [of k] True by (simp add: k_def)
    next
      case False
      with IX_mem have "i \<notin> set (drop 0 IX)" by simp
      from replace_placeholders_other [OF fst_run this] False R_nth [OF i] show ?thesis by simp
    qed
    with res len' show ?thesis by blast
  qed
qed

lemma generate_batch_try_trace:
  assumes "queries req \<noteq> []"
  shows "snd (generate_batch_try e req) =
     (if filter is_valid (queries req) = [] then []
      else
        (case tokenizer e (Batch (map PromptText (filter is_valid (queries req)))) of
           Inl x \<Rightarrow> [Tokenize (Batch (map PromptText (filter is_valid (queries req))))]
         | Inr inputs \<Rightarrow>
             (case generate e inputs of
                Inl x \<Rightarrow> [Tokenize (Batch (map PromptText (filter is_valid (queries req)))), Generate inputs]
              | Inr outputs \<Rightarrow>
                  Tokenize (Batch (map PromptText (filter is_valid (queries req)))) # Generate inputs #
                  snd (replace_placeholders e
                        (map fst (filter (\<lambda>(k, q). is_valid q) (enumerate 0 (queries req)))) 0 outputs
                        (map (\<lambda>(k, q). entry k q) (enumerate 0 (queries req)))))))"
  using assms
  by (simp add: generate_batch_try_def first_pass_0 split: sum.splits prod.splits)

lemma generate_batch_try_fst:
  assumes "queries req \<noteq> []"
  shows "fst (generate_batch_try e req) =
     (if filter is_valid (queries req) = [] then Inr (map (\<lambda>(k, q). entry k q) (enumerate 0 (queries req)))
      else
        (case tokenizer e (Batch (map PromptText (filter is_valid (queries req)))) of
           Inl x \<Rightarrow> Inl x
         | Inr inputs \<Rightarrow>
             (case generate e inputs of
                Inl x \<Rightarrow> Inl x
              | Inr outputs \<Rightarrow>
                  fst (replace_placeholders e
                        (map fst (filter (\<lambda>(k, q). is_valid q) (enumerate 0 (queries req)))) 0 outputs
                        (map (\<lambda>(k, q). entry k q) (enumerate 0 (queries req)))))))"
  using assms
  by (simp add: generate_batch_try_def first_pass_0 split: sum.splits prod.splits)

lemma generate_batch_try_empty:
  "queries req = [] \<Longrightarrow> generate_batch_try e req =
     (Inl (HTTPException 400 (S ''queries array required and must be non-empty'')), [])"
  by (simp add: generate_batch_try_def)

lemma generate_batch_try_Inr:
  assumes "fst (generate_batch_try e req) = Inr rs"
  shows "queries req \<noteq> [] \<and> length rs = length (queries req) \<and>
     (\<forall>i<length (queries req). \<not> is_valid (queries req ! i) \<longrightarrow> rs ! i = entry i (queries req ! i))"
proof -
  let ?qs = "queries req"
  let ?R = "map (\<lambda>(k, q). entry k q) (enumerate 0 ?qs)"
  let ?IX = "map fst (filter (\<lambda>(k, q). is_valid q) (enumerate 0 ?qs))"
  from assms have ne: "?qs \<noteq> []"
    by (auto simp: generate_batch_try_empty)
  have R_nth: "?R ! i = entry i (?qs ! i)" if "i < length ?qs" for i
    using entries_nth [OF that, of 0] by simp
  have run: ?thesis if r: "fst (replace_placeholders e ?IX 0 outputs ?R) = Inr rs" for outputs
  proof -
    have "rs ! i = entry i (?qs ! i)" if "i < length ?qs" "\<not> is_valid (?qs ! i)" for i
    proof -
      from that have "i \<notin> set (drop 0 ?IX)"
        by (simp only: drop_0 valid_positions_set) simp
      from replace_placeholders_other [OF r this] R_nth [OF that(1)] show ?thesis by simp
    qed
    with ne replace_placeholders_length [OF r] show ?thesis by simp
  qed
  show ?thesis
  proof (cases "filter is_valid ?qs = []")
    case True
    with assms have "rs = ?R" by (simp add: generate_batch_try_fst [OF ne])
    with ne R_nth show ?thesis by simp
  next
    case False
    show ?thesis
    proof (cases "tokenizer e (Batch (map PromptText (filter is_valid ?qs)))")
      case (Inl x)
      with False assms show ?thesis by (simp add: generate_batch_try_fst [OF ne])
    next
      case tok: (Inr inputs)
      show ?thesis
      proof (cases "generate e inputs")
        case (Inl x)
        with False tok assms show ?thesis by (simp add: generate_batch_try_fst [OF ne])
      next
        case (Inr outputs)
        with False tok assms have "fst (replace_placeholders e ?IX 0 outputs ?R) = Inr rs"
          by (simp add: generate_batch_try_fst [OF ne])
        then show ?thesis by (rule run)
      qed
    qed
  qed
qed

lemma generate_batch_snd: "snd (generate_batch e req) = snd (generate_batch_try e req)"
  by (simp add: generate_batch_def except_Exception_snd)

lemma generate_batch_Inr: "fst (generate_batch e req) = Inr rs \<longleftrightarrow> fst (generate_batch_try e req) = Inr rs"
  by (simp add: generate_batch_def except_Exception_Inr)

lemma generate_batch_Inl:
  "fst (generate_batch_try e req) = Inl x \<Longrightarrow>
   fst (generate_batch e req) = Inl (HTTPException 500 (str_exc e x))"
  by (simp add: generate_batch_def except_Exception_Inl)

lemma generate_batch_ok:
  assumes "queries req \<noteq> []"
    and "filter is_valid (queries req) = [] \<or>
      engine_answers e (map PromptText (filter is_valid (queries req))) texts"
  shows "\<exists>rs. fst (generate_batch e req) = Inr rs \<and> length rs = length (queries req) \<and>
     (\<forall>i<length (queries req). rs ! i =
        (if is_valid (queries req ! i) then
           [(''chat_id'', Str (chat_id (queries req ! i))),
            (''response'', Str (texts ! length (filter is_valid (take i (queries req)))))]
         else entry i (queries req ! i)))"
  using generate_batch_try_ok [OF refl assms] by (simp add: generate_batch_Inr)

lemma no_Tokenize_in_Decodes [simp]: "filter is_Tokenize (map Decode xs) = []"
  by (induction xs) simp_all

lemma no_Generate_in_Decodes [simp]: "filter is_Generate (map Decode xs) = []"
  by (induction xs) simp_all

lemma generate_batch_trace_shape:
  assumes "filter is_valid (queries req) \<noteq> []"
  shows "\<exists>n outs. snd (generate_batch e req) =
     Tokenize (Batch (map PromptText (filter is_valid (queries req)))) #
     (case tokenizer e (Batch (map PromptText (filter is_valid (queries req)))) of
        Inl x \<Rightarrow> []
      | Inr inputs \<Rightarrow> Generate inputs # map Decode (take n outs))"
proof -
  let ?PS = "map PromptText (filter is_valid (queries req))"
  from assms have ne: "queries req \<noteq> []" by auto
  show ?thesis
  proof (cases "tokenizer e (Batch ?PS)")
    case (Inl x)
    with assms show ?thesis
      by (simp add: generate_batch_snd generate_batch_try_trace [OF ne])
  next
    case tok: (Inr inputs)
    show ?thesis
    proof (cases "generate e inputs")
      case (Inl x)
      with assms tok have "snd (generate_batch e req) = Tokenize (Batch ?PS) # Generate inputs # map Decode (take 0 [])"
        by (simp add: generate_batch_snd generate_batch_try_trace [OF ne])
      with tok show ?thesis by (metis sum.simps(6))
    next
      case (Inr outputs)
      from replace_placeholders_trace obtain n where
        "snd (replace_placeholders e
               (map fst (filter (\<lambda>(k, q). is_valid q) (enumerate 0 (queries req)))) 0 outputs
               (map (\<lambda>(k, q). entry k q) (enumerate 0 (queries req)))) = map Decode (take n outputs)"
        by blast
      with assms tok Inr have "snd (generate_batch e req) =
          Tokenize (Batch ?PS) # Generate inputs # map Decode (take n outputs)"
        by (simp add: generate_batch_snd generate_batch_try_trace [OF ne])
      with tok show ?thesis by (metis sum.simps(6))
    qed
  qed
qed

lemma generate_batch_trace_none:
  assumes "filter is_valid (queries req) = []"
  shows "snd (generate_batch e req) = []"
proof (cases "queries req = []")
  case True
  then show ?thesis by (simp add: generate_batch_snd generate_batch_try_empty)
next
  case False
  with assms show ?thesis by (simp add: generate_batch_snd generate_batch_try_trace)
qed

lemma generate_batch_try_Inr_answers:
  assumes res: "fst (generate_batch_try e req) = Inr rs"
    and one: "one_output_per_prompt e (map PromptText (filter is_valid (queries req)))"
  shows "\<exists>texts. filter is_valid (queries req) = [] \<or>
     engine_answers e (map PromptText (filter is_valid (queries req))) texts"
proof (cases "filter is_valid (queries req) = []")
  case True
  then show ?thesis by simp
next
  case False
  let ?PS = "map PromptText (filter is_valid (queries req))"
  from False have ne: "queries req \<noteq> []" by auto
  from res False obtain inputs where tok: "tokenizer e (Batch ?PS) = Inr inputs"
    by (cases "tokenizer e (Batch ?PS)") (simp_all add: generate_batch_try_fst [OF ne])
  from res False tok obtain outs where gen: "generate e inputs = Inr outs"
    by (cases "generate e inputs") (simp_all add: generate_batch_try_fst [OF ne])
  from res False tok gen have run: "fst (replace_placeholders e
               (map fst (filter (\<lambda>(k, q). is_valid q) (enumerate 0 (queries req)))) 0 outs
               (map (\<lambda>(k, q). entry k q) (enumerate 0 (queries req)))) = Inr rs"
    by (simp add: generate_batch_try_fst [OF ne])
  have "\<not> isl (decode e out)" if "out \<in> set outs" for out
  proof
    assume "isl (decode e out)"
    then obtain x where "decode e out = Inl x" by (cases "decode e out") auto
    from replace_placeholders_fail [OF that this, of
        "map fst (filter (\<lambda>(k, q). is_valid q) (enumerate 0 (queries req)))" 0
        "map (\<lambda>(k, q). entry k q) (enumerate 0 (queries req))"] run
    show False by simp
  qed
  then have "map (decode e) outs = map Inr (map (\<lambda>out. projr (decode e out)) outs)"
    by (intro decodes_succeed) simp
  moreover from one tok gen have "length outs = length ?PS"
    by (simp add: one_output_per_prompt_def)
  ultimately have "engine_answers e ?PS (map (\<lambda>out. projr (decode e out)) outs)"
    using tok gen by (simp add: engine_answers_def)
  then show ?thesis by blast
qed

lemma chat_trace:
  assumes "chat_id q \<noteq> []" and "user_prompt q \<noteq> []"
  shows "\<exists>t. snd (chat e q) = Tokenize (Single (PromptText q)) # t"
  using assms
  by (auto simp: chat_def chat_try_def except_Exception_snd PromptText_def Let_def
      split: sum.splits list.splits)

section \<open>Facts about the samples\<close>

lemmas eval_defs =
  sample_request_def blank_request_def echo_engine_def broken_engine_def
  is_valid_def strip_def isspace_def S_def PromptText_def
  engine_answers_def engine_fails_def one_output_per_prompt_def
  is_error_def is_success_def

lemma sample_valid:
  "filter is_valid (queries sample_request) =
     [\<lparr>chat_id = S ''b'', system_prompt = Some (S ''be brief''), user_prompt = S ''hi''\<rparr>,
      \<lparr>chat_id = S ''d'', system_prompt = Some [], user_prompt = S ''yo''\<rparr>]"
  by (simp add: eval_defs)

lemma sample_nonempty: "queries sample_request \<noteq> []"
  by (simp add: sample_request_def)

lemma sample_pattern:
  "length (queries sample_request) = 4"
  "\<not> is_valid (queries sample_request ! 0)"
  "is_valid (queries sample_request ! 1)"
  "\<not> is_valid (queries sample_request ! 2)"
  "is_valid (queries sample_request ! 3)"
  "length (filter is_valid (take 3 (queries sample_request))) = 1"
  by (simp_all add: eval_defs)

lemma sample_answers:
  "engine_answers echo_engine (map PromptText (filter is_valid (queries sample_request)))
     [S ''be brief'' @ [10] @ S ''hi'', [10] @ S ''yo'']"
  by (simp add: eval_defs)

lemma blank_none: "queries blank_request \<noteq> [] \<and> filter is_valid (queries blank_request) = []"
  by (simp add: eval_defs)

lemma sample_returns: "\<exists>rs. fst (generate_batch echo_engine sample_request) = Inr rs"
  using generate_batch_ok [OF sample_nonempty disjI2 [OF sample_answers]] by blast

lemma sample_prompts_nonempty: "filter is_valid (queries sample_request) \<noteq> []"
  by (simp add: sample_valid)

lemma sample_prompts:
  "map PromptText (filter is_valid (queries sample_request)) =
     [S ''be brief'' @ [10] @ S ''hi'', [10] @ S ''yo'']"
  by (simp add: sample_valid PromptText_def)

section \<open>The claims\<close>

text \<open>
  Claim C1. Order and pattern are preserved. When the request list is not empty and the
  engine answers the prompts of the valid requests with \<open>texts\<close> (one string per prompt),
  \<open>generate_batch\<close> returns a list of the same length in which, at every position \<open>i\<close>,
  the result is a success result exactly when request \<open>i\<close> passed validation and an error
  result exactly when it did not, the result carries the \<open>chat_id\<close> of request \<open>i\<close> (or
  \<open>query_i\<close> when that is empty), and the response of a valid request is the text the
  engine gave for its prompt: the one at the rank of \<open>i\<close> among the valid requests.
\<close>

theorem generate_batch_order:
  assumes "queries req \<noteq> []"
    and "filter is_valid (queries req) = [] \<or>
      engine_answers e (map PromptText (filter is_valid (queries req))) texts"
  shows "\<exists>rs. fst (generate_batch e req) = Inr rs \<and> length rs = length (queries req) \<and>
     (\<forall>i<length (queries req).
        (is_success (rs ! i) \<longleftrightarrow> is_valid (queries req ! i)) \<and>
        (is_error (rs ! i) \<longleftrightarrow> \<not> is_valid (queries req ! i)) \<and>
        map_of (rs ! i) ''chat_id'' =
          Some (Str (if chat_id (queries req ! i) \<noteq> [] then chat_id (queries req ! i)
                     else S ''query_'' @ str_nat i)) \<and>
        (is_valid (queries req ! i) \<longrightarrow>
           map_of (rs ! i) ''response'' =
             Some (Str (texts ! length (filter is_valid (take i (queries req)))))))"
proof -
  from generate_batch_ok [OF assms] obtain rs where
    res: "fst (generate_batch e req) = Inr rs" and len: "length rs = length (queries req)"
    and nth: "\<And>i. i < length (queries req) \<Longrightarrow> rs ! i =
        (if is_valid (queries req ! i) then
           [(''chat_id'', Str (chat_id (queries req ! i))),
            (''response'', Str (texts ! length (filter is_valid (take i (queries req)))))]
         else entry i (queries req ! i))"
    by blast
  have "(is_success (rs ! i) \<longleftrightarrow> is_valid (queries req ! i)) \<and>
        (is_error (rs ! i) \<longleftrightarrow> \<not> is_valid (queries req ! i)) \<and>
        map_of (rs ! i) ''chat_id'' =
          Some (Str (if chat_id (queries req ! i) \<noteq> [] then chat_id (queries req ! i)
                     else S ''query_'' @ str_nat i)) \<and>
        (is_valid (queries req ! i) \<longrightarrow>
           map_of (rs ! i) ''response'' =
             Some (Str (texts ! length (filter is_valid (take i (queries req))))))"
    if i: "i < length (queries req)" for i
  proof (cases "is_valid (queries req ! i)")
    case True
    with nth [OF i] is_valid_chat_id [OF True] show ?thesis
      by (simp add: is_success_def is_error_def)
  next
    case False
    with nth [OF i] entry_invalid_error [OF False, of i] entry_invalid_not_success [OF False, of i]
    show ?thesis by (simp add: entry_chat_id)
  qed
  with res len show ?thesis by blast
qed

theorem generate_batch_order_witness:
  "queries sample_request \<noteq> [] \<and>
   engine_answers echo_engine (map PromptText (filter is_valid (queries sample_request)))
     [S ''be brief'' @ [10] @ S ''hi'', [10] @ S ''yo''] \<and>
   (\<exists>rs. fst (generate_batch echo_engine sample_request) = Inr rs \<and> length rs = 4 \<and>
      is_error (rs ! 0) \<and> is_success (rs ! 1) \<and> is_error (rs ! 2) \<and> is_success (rs ! 3) \<and>
      map_of (rs ! 3) ''response'' = Some (Str ([10] @ S ''yo'')))"
proof -
  have "filter is_valid (queries sample_request) = [] \<or>
      engine_answers echo_engine (map PromptText (filter is_valid (queries sample_request)))
        [S ''be brief'' @ [10] @ S ''hi'', [10] @ S ''yo'']"
    using sample_answers ..
  from generate_batch_order [OF sample_nonempty this] obtain rs where
    res: "fst (generate_batch echo_engine sample_request) = Inr rs"
    and len: "length rs = length (queries sample_request)"
    and each: "\<And>i. i < length (queries sample_request) \<Longrightarrow>
        (is_success (rs ! i) \<longleftrightarrow> is_valid (queries sample_request ! i)) \<and>
        (is_error (rs ! i) \<longleftrightarrow> \<not> is_valid (queries sample_request ! i)) \<and>
        map_of (rs ! i) ''chat_id'' =
          Some (Str (if chat_id (queries sample_request ! i) \<noteq> [] then chat_id (queries sample_request ! i)
                     else S ''query_'' @ str_nat i)) \<and>
        (is_valid (queries sample_request ! i) \<longrightarrow>
           map_of (rs ! i) ''response'' =
             Some (Str ([S ''be brief'' @ [10] @ S ''hi'', [10] @ S ''yo''] !
                length (filter is_valid (take i (queries sample_request))))))"
    by blast
  from each [of 0] each [of 1] each [of 2] each [of 3] sample_pattern
  have "is_error (rs ! 0) \<and> is_success (rs ! 1) \<and> is_error (rs ! 2) \<and> is_success (rs ! 3) \<and>
      map_of (rs ! 3) ''response'' = Some (Str ([10] @ S ''yo''))"
    by simp
  with res len sample_pattern(1) sample_nonempty sample_answers show ?thesis by auto
qed

text \<open>
  Claim C2. For a non-empty request list the returned list has exactly one result per
  request: \<open>generate_batch\<close> returns a list whenever the engine answers (or no request is
  valid), and every list it returns is as long as the request list.
\<close>

theorem generate_batch_length:
  assumes "queries req \<noteq> []"
  shows "(filter is_valid (queries req) = [] \<or>
            engine_answers e (map PromptText (filter is_valid (queries req))) texts \<longrightarrow>
          (\<exists>rs. fst (generate_batch e req) = Inr rs)) \<and>
         (\<forall>rs. fst (generate_batch e req) = Inr rs \<longrightarrow> length rs = length (queries req))"
proof (intro conjI impI allI)
  assume "filter is_valid (queries req) = [] \<or>
            engine_answers e (map PromptText (filter is_valid (queries req))) texts"
  from generate_batch_ok [OF assms this] show "\<exists>rs. fst (generate_batch e req) = Inr rs"
    by blast
next
  fix rs assume "fst (generate_batch e req) = Inr rs"
  then have "fst (generate_batch_try e req) = Inr rs" by (simp add: generate_batch_Inr)
  from generate_batch_try_Inr [OF this] show "length rs = length (queries req)" by simp
qed

theorem generate_batch_length_witness:
  "queries sample_request \<noteq> [] \<and>
   engine_answers echo_engine (map PromptText (filter is_valid (queries sample_request)))
     [S ''be brief'' @ [10] @ S ''hi'', [10] @ S ''yo''] \<and>
   (\<exists>rs. fst (generate_batch echo_engine sample_request) = Inr rs \<and>
      length rs = length (queries sample_request))"
  using generate_batch_length [OF sample_nonempty, of echo_engine
      "[S ''be brief'' @ [10] @ S ''hi'', [10] @ S ''yo'']"]
    sample_nonempty sample_answers
  by blast

text \<open>
  Claim C3. Invalid requests never reach the engine. Every list of prompts handed to the
  tokenizer consists of the PromptTexts of the positions that passed validation, in
  order; an invalid request gets its error result in the first pass and its position is
  not recorded in \<open>valid_indices\<close>; and when no request of a non-empty batch is valid, no
  library call is made at all and the returned list holds error results only.
\<close>

theorem invalid_never_reaches_engine:
  "(\<forall>ps. Tokenize (Batch ps) \<in> set (snd (generate_batch e req)) \<longrightarrow>
      ps = map (\<lambda>k. PromptText (queries req ! k))
             (filter (\<lambda>k. is_valid (queries req ! k)) [0..<length (queries req)])) \<and>
   (\<forall>i<length (queries req). \<not> is_valid (queries req ! i) \<longrightarrow>
      is_error (fst (first_pass 0 (queries req) [] [] []) ! i) \<and>
      i \<notin> set (snd (snd (first_pass 0 (queries req) [] [] [])))) \<and>
   (queries req \<noteq> [] \<and> filter is_valid (queries req) = [] \<longrightarrow>
      snd (generate_batch e req) = [] \<and>
      (\<exists>rs. fst (generate_batch e req) = Inr rs \<and> length rs = length (queries req) \<and>
         (\<forall>d\<in>set rs. is_error d)))"
proof (intro conjI allI impI)
  fix ps assume mem: "Tokenize (Batch ps) \<in> set (snd (generate_batch e req))"
  show "ps = map (\<lambda>k. PromptText (queries req ! k))
             (filter (\<lambda>k. is_valid (queries req ! k)) [0..<length (queries req)])"
  proof (cases "filter is_valid (queries req) = []")
    case True
    with mem show ?thesis by (simp add: generate_batch_trace_none)
  next
    case False
    from generate_batch_trace_shape [OF False, of e] obtain n outs where
      "snd (generate_batch e req) =
         Tokenize (Batch (map PromptText (filter is_valid (queries req)))) #
         (case tokenizer e (Batch (map PromptText (filter is_valid (queries req)))) of
            Inl x \<Rightarrow> []
          | Inr inputs \<Rightarrow> Generate inputs # map Decode (take n outs))"
      by blast
    with mem have "ps = map PromptText (filter is_valid (queries req))"
      by (auto split: sum.splits)
    then show ?thesis by (simp only: prompts_by_position)
  qed
next
  fix i assume "i < length (queries req)" "\<not> is_valid (queries req ! i)"
  then show "is_error (fst (first_pass 0 (queries req) [] [] []) ! i)"
    by (simp add: first_pass_nth entry_invalid_error)
next
  fix i assume "i < length (queries req)" "\<not> is_valid (queries req ! i)"
  then show "i \<notin> set (snd (snd (first_pass 0 (queries req) [] [] [])))"
    by (simp add: first_pass_indices_mem)
next
  assume "queries req \<noteq> [] \<and> filter is_valid (queries req) = []"
  then show "snd (generate_batch e req) = []" by (simp add: generate_batch_trace_none)
next
  assume a: "queries req \<noteq> [] \<and> filter is_valid (queries req) = []"
  then have ne: "queries req \<noteq> []" and none: "filter is_valid (queries req) = []" by simp_all
  from none have "filter is_valid (queries req) = [] \<or>
      engine_answers e (map PromptText (filter is_valid (queries req))) []" ..
  from generate_batch_ok [OF ne this] obtain rs where
    res: "fst (generate_batch e req) = Inr rs" and len: "length rs = length (queries req)"
    and nth: "\<And>i. i < length (queries req) \<Longrightarrow> rs ! i =
        (if is_valid (queries req ! i) then
           [(''chat_id'', Str (chat_id (queries req ! i))),
            (''response'', Str ([] ! length (filter is_valid (take i (queries req)))))]
         else entry i (queries req ! i))"
    by blast
  have "is_error d" if "d \<in> set rs" for d
  proof -
    from that obtain i where i: "i < length rs" and d: "d = rs ! i"
      by (auto simp: in_set_conv_nth)
    from i len have i': "i < length (queries req)" by simp
    with none have inv: "\<not> is_valid (queries req ! i)"
      by (metis filter_empty_conv nth_mem)
    with nth [OF i'] d show ?thesis by (simp add: entry_invalid_error)
  qed
  with res len show "\<exists>rs. fst (generate_batch e req) = Inr rs \<and> length rs = length (queries req) \<and>
         (\<forall>d\<in>set rs. is_error d)" by blast
qed

theorem invalid_never_reaches_engine_witness:
  "Tokenize (Batch [S ''be brief'' @ [10] @ S ''hi'', [10] @ S ''yo''])
     \<in> set (snd (generate_batch echo_engine sample_request)) \<and>
   [S ''be brief'' @ [10] @ S ''hi'', [10] @ S ''yo''] =
     map (\<lambda>k. PromptText (queries sample_request ! k))
       (filter (\<lambda>k. is_valid (queries sample_request ! k)) [0..<length (queries sample_request)]) \<and>
   2 < length (queries sample_request) \<and> \<not> is_valid (queries sample_request ! 2) \<and>
   is_error (fst (first_pass 0 (queries sample_request) [] [] []) ! 2) \<and>
   2 \<notin> set (snd (snd (first_pass 0 (queries sample_request) [] [] []))) \<and>
   queries blank_request \<noteq> [] \<and> filter is_valid (queries blank_request) = [] \<and>
   snd (generate_batch echo_engine blank_request) = [] \<and>
   (\<exists>rs. fst (generate_batch echo_engine blank_request) = Inr rs \<and>
      length rs = length (queries blank_request) \<and> (\<forall>d\<in>set rs. is_error d))"
proof -
  have mem: "Tokenize (Batch [S ''be brief'' @ [10] @ S ''hi'', [10] @ S ''yo''])
     \<in> set (snd (generate_batch echo_engine sample_request))"
    by (simp add: generate_batch_def generate_batch_try_def except_Exception_def eval_defs)
  have two: "2 < length (queries sample_request)" "\<not> is_valid (queries sample_request ! 2)"
    using sample_pattern by simp_all
  note a = invalid_never_reaches_engine [of echo_engine sample_request]
  note b = invalid_never_reaches_engine [of echo_engine blank_request]
  from a mem have "[S ''be brief'' @ [10] @ S ''hi'', [10] @ S ''yo''] =
     map (\<lambda>k. PromptText (queries sample_request ! k))
       (filter (\<lambda>k. is_valid (queries sample_request ! k)) [0..<length (queries sample_request)])"
    by blast
  moreover from a two have "is_error (fst (first_pass 0 (queries sample_request) [] [] []) ! 2) \<and>
      2 \<notin> set (snd (snd (first_pass 0 (queries sample_request) [] [] [])))"
    by blast
  moreover from b blank_none have "snd (generate_batch echo_engine blank_request) = [] \<and>
   (\<exists>rs. fst (generate_batch echo_engine blank_request) = Inr rs \<and>
      length rs = length (queries blank_request) \<and> (\<forall>d\<in>set rs. is_error d))"
    by blast
  ultimately show ?thesis using mem two blank_none by blast
qed

text \<open>
  Claim C4. The first pass produces exactly the specified error results. At position
  \<open>i\<close>: a \<open>chat_id\<close> that is blank after trimming gives the message
  "chat_id is required and cannot be empty" under the original \<open>chat_id\<close> if it is not
  empty and under \<open>query_i\<close> otherwise; else a \<open>user_prompt\<close> that is blank after trimming
  gives "user_prompt is required and cannot be empty" under the request's \<open>chat_id\<close>.
  Whatever list the endpoint returns keeps that result at position \<open>i\<close>.
\<close>

theorem validation_error_results:
  assumes "i < length (queries req)"
  shows "(strip (chat_id (queries req ! i)) = [] \<longrightarrow>
            fst (first_pass 0 (queries req) [] [] []) ! i =
              [(''chat_id'', Str (if chat_id (queries req ! i) \<noteq> [] then chat_id (queries req ! i)
                                  else S ''query_'' @ str_nat i)),
               (''error'', Str (S ''chat_id is required and cannot be empty''))]) \<and>
         (strip (chat_id (queries req ! i)) \<noteq> [] \<and> strip (user_prompt (queries req ! i)) = [] \<longrightarrow>
            fst (first_pass 0 (queries req) [] [] []) ! i =
              [(''chat_id'', Str (chat_id (queries req ! i))),
               (''error'', Str (S ''user_prompt is required and cannot be empty''))]) \<and>
         (\<not> is_valid (queries req ! i) \<longrightarrow>
            (\<forall>rs. fst (generate_batch e req) = Inr rs \<longrightarrow>
               rs ! i = fst (first_pass 0 (queries req) [] [] []) ! i))"
proof (intro conjI impI allI)
  assume "strip (chat_id (queries req ! i)) = []"
  then show "fst (first_pass 0 (queries req) [] [] []) ! i =
              [(''chat_id'', Str (if chat_id (queries req ! i) \<noteq> [] then chat_id (queries req ! i)
                                  else S ''query_'' @ str_nat i)),
               (''error'', Str (S ''chat_id is required and cannot be empty''))]"
    by (simp add: first_pass_nth [OF assms] entry_def)
next
  assume "strip (chat_id (queries req ! i)) \<noteq> [] \<and> strip (user_prompt (queries req ! i)) = []"
  then show "fst (first_pass 0 (queries req) [] [] []) ! i =
              [(''chat_id'', Str (chat_id (queries req ! i))),
               (''error'', Str (S ''user_prompt is required and cannot be empty''))]"
    by (simp add: first_pass_nth [OF assms] entry_def)
next
  fix rs assume inv: "\<not> is_valid (queries req ! i)" and "fst (generate_batch e req) = Inr rs"
  then have "fst (generate_batch_try e req) = Inr rs" by (simp add: generate_batch_Inr)
  from generate_batch_try_Inr [OF this] assms inv
  show "rs ! i = fst (first_pass 0 (queries req) [] [] []) ! i"
    by (simp add: first_pass_nth)
qed

theorem validation_error_results_witness:
  "0 < length (queries sample_request) \<and> strip (chat_id (queries sample_request ! 0)) = [] \<and>
   fst (first_pass 0 (queries sample_request) [] [] []) ! 0 =
     [(''chat_id'', Str (S ''query_0'')),
      (''error'', Str (S ''chat_id is required and cannot be empty''))] \<and>
   2 < length (queries sample_request) \<and>
   strip (chat_id (queries sample_request ! 2)) \<noteq> [] \<and>
   strip (user_prompt (queries sample_request ! 2)) = [] \<and>
   fst (first_pass 0 (queries sample_request) [] [] []) ! 2 =
     [(''chat_id'', Str (S ''c'')),
      (''error'', Str (S ''user_prompt is required and cannot be empty''))] \<and>
   \<not> is_valid (queries sample_request ! 2) \<and>
   (\<exists>rs. fst (generate_batch echo_engine sample_request) = Inr rs \<and>
      rs ! 2 = fst (first_pass 0 (queries sample_request) [] [] []) ! 2)"
proof -
  have l0: "0 < length (queries sample_request)" and l2: "2 < length (queries sample_request)"
    using sample_pattern(1) by simp_all
  have s0: "strip (chat_id (queries sample_request ! 0)) = []"
    and c0: "chat_id (queries sample_request ! 0) = []"
    and s2: "strip (chat_id (queries sample_request ! 2)) \<noteq> [] \<and>
      strip (user_prompt (queries sample_request ! 2)) = []"
    and c2: "chat_id (queries sample_request ! 2) = S ''c''"
    by (simp_all add: eval_defs)
  have q0: "S ''query_'' @ str_nat 0 = S ''query_0''"
    by (simp add: S_def str_nat.simps)
  obtain rs where res: "fst (generate_batch echo_engine sample_request) = Inr rs"
    using sample_returns by blast
  from validation_error_results [OF l0, of echo_engine] s0 c0 q0
  have "fst (first_pass 0 (queries sample_request) [] [] []) ! 0 =
     [(''chat_id'', Str (S ''query_0'')),
      (''error'', Str (S ''chat_id is required and cannot be empty''))]"
    by simp
  moreover from validation_error_results [OF l2, of echo_engine] s2 c2
  have "fst (first_pass 0 (queries sample_request) [] [] []) ! 2 =
     [(''chat_id'', Str (S ''c'')),
      (''error'', Str (S ''user_prompt is required and cannot be empty''))]"
    by simp
  moreover from validation_error_results [OF l2, of echo_engine] sample_pattern(4) res
  have "rs ! 2 = fst (first_pass 0 (queries sample_request) [] [] []) ! 2"
    by blast
  ultimately show ?thesis using l0 l2 s0 s2 sample_pattern(4) res by blast
qed

text \<open>
  Claim C5. With at least one valid request the engine is invoked exactly once: the
  recorded calls start with the one tokenizer call, which receives the PromptTexts of all
  valid requests in their original order (as many prompts as valid requests), and
  \<open>model.generate\<close> is called once on its result (not at all when tokenizing raised).
  The remaining calls decode the returned rows.
\<close>

theorem engine_invoked_once:
  assumes "filter is_valid (queries req) \<noteq> []"
  shows "\<exists>ps. filter is_Tokenize (snd (generate_batch e req)) = [Tokenize (Batch ps)] \<and>
           ps = map PromptText (filter is_valid (queries req)) \<and>
           length ps = length (filter is_valid (queries req)) \<and>
           hd (snd (generate_batch e req)) = Tokenize (Batch ps) \<and>
           filter is_Generate (snd (generate_batch e req)) =
             (case tokenizer e (Batch ps) of Inl x \<Rightarrow> [] | Inr inputs \<Rightarrow> [Generate inputs])"
proof -
  from generate_batch_trace_shape [OF assms, of e] obtain n outs where
    "snd (generate_batch e req) =
       Tokenize (Batch (map PromptText (filter is_valid (queries req)))) #
       (case tokenizer e (Batch (map PromptText (filter is_valid (queries req)))) of
          Inl x \<Rightarrow> []
        | Inr inputs \<Rightarrow> Generate inputs # map Decode (take n outs))"
    by blast
  then show ?thesis by (simp split: sum.splits)
qed

theorem engine_invoked_once_witness:
  "filter is_valid (queries sample_request) \<noteq> [] \<and>
   filter is_Tokenize (snd (generate_batch echo_engine sample_request)) =
     [Tokenize (Batch [S ''be brief'' @ [10] @ S ''hi'', [10] @ S ''yo''])] \<and>
   filter is_Generate (snd (generate_batch echo_engine sample_request)) =
     [Generate [S ''be brief'' @ [10] @ S ''hi'', [10] @ S ''yo'']]"
proof -
  have tok: "tokenizer echo_engine (Batch ps) = Inr ps" for ps
    by (simp add: echo_engine_def)
  from engine_invoked_once [OF sample_prompts_nonempty, of echo_engine]
  show ?thesis
    using sample_prompts_nonempty by (auto simp: sample_prompts tok)
qed

text \<open>
  Claim C6, evaluated on the empty list of queries. The \<open>HTTPException\<close> with status
  400 is raised inside the \<open>try\<close> block, the handler \<open>except Exception\<close> catches it, and the
  call fails with status 500; no library call is made.
\<close>

theorem generate_batch_empty_queries:
  "generate_batch e \<lparr>queries = []\<rparr> =
     (Inl (HTTPException 500
        (str_exc e (HTTPException 400 (S ''queries array required and must be non-empty'')))), [])"
  by (simp add: generate_batch_def generate_batch_try_def except_Exception_def)

text \<open>
  Claim C7, evaluated on two requests. With an empty \<open>chat_id\<close> the 400 raised by
  \<open>chat\<close> inside its \<open>try\<close> block is caught by its own handler and leaves as status 500.
  With the \<open>chat_id\<close> \<open>" "\<close>, which the batch endpoint rejects as blank, \<open>chat\<close>
  does not trim, accepts the request and calls the tokenizer.
\<close>

theorem chat_validation_differs:
  "chat e \<lparr>chat_id = [], system_prompt = None, user_prompt = S ''hi''\<rparr> =
     (Inl (HTTPException 500
        (str_exc e (HTTPException 400 (S ''chat_id and user_prompt are required'')))), []) \<and>
   \<not> is_valid \<lparr>chat_id = S '' '', system_prompt = None, user_prompt = S ''hi''\<rparr> \<and>
   hd (snd (chat e \<lparr>chat_id = S '' '', system_prompt = None, user_prompt = S ''hi''\<rparr>)) =
     Tokenize (Single (10 # S ''hi''))"
proof (intro conjI)
  show "chat e \<lparr>chat_id = [], system_prompt = None, user_prompt = S ''hi''\<rparr> =
     (Inl (HTTPException 500
        (str_exc e (HTTPException 400 (S ''chat_id and user_prompt are required'')))), [])"
    by (simp add: chat_def chat_try_def except_Exception_def)
  show "\<not> is_valid \<lparr>chat_id = S '' '', system_prompt = None, user_prompt = S ''hi''\<rparr>"
    by (simp add: is_valid_def strip_def isspace_def S_def)
  have "\<exists>t. snd (chat e \<lparr>chat_id = S '' '', system_prompt = None, user_prompt = S ''hi''\<rparr>) =
      Tokenize (Single (PromptText \<lparr>chat_id = S '' '', system_prompt = None, user_prompt = S ''hi''\<rparr>)) # t"
    by (rule chat_trace) (simp_all add: S_def)
  then show "hd (snd (chat e \<lparr>chat_id = S '' '', system_prompt = None, user_prompt = S ''hi''\<rparr>)) =
     Tokenize (Single (10 # S ''hi''))"
    by (auto simp: PromptText_def)
qed

text \<open>
  Claim C8. When the engine fails during the batch call (tokenizing, generating or
  decoding a row raises), the whole call fails with a single error of status 500, whose
  detail is \<open>str\<close> of the exception raised: no list of results is returned.
\<close>

theorem engine_failure_is_500:
  assumes "filter is_valid (queries req) \<noteq> []"
    and "engine_fails e (map PromptText (filter is_valid (queries req)))"
  shows "\<exists>x. fst (generate_batch e req) = Inl (HTTPException 500 (str_exc e x))"
proof -
  let ?PS = "map PromptText (filter is_valid (queries req))"
  from assms(1) have ne: "queries req \<noteq> []" by auto
  have "\<exists>x. fst (generate_batch_try e req) = Inl x"
  proof (cases "tokenizer e (Batch ?PS)")
    case (Inl x)
    with assms(1) show ?thesis by (simp add: generate_batch_try_fst [OF ne])
  next
    case tok: (Inr inputs)
    show ?thesis
    proof (cases "generate e inputs")
      case (Inl x)
      with assms(1) tok show ?thesis by (simp add: generate_batch_try_fst [OF ne])
    next
      case (Inr outputs)
      with assms(2) tok obtain out where "out \<in> set outputs" "isl (decode e out)"
        by (auto simp: engine_fails_def)
      then obtain x where "out \<in> set outputs" "decode e out = Inl x"
        by (cases "decode e out") auto
      from replace_placeholders_fail [OF this]
      have "isl (fst (replace_placeholders e
               (map fst (filter (\<lambda>(k, q). is_valid q) (enumerate 0 (queries req)))) 0 outputs
               (map (\<lambda>(k, q). entry k q) (enumerate 0 (queries req)))))" .
      with assms(1) tok Inr have "isl (fst (generate_batch_try e req))"
        by (simp add: generate_batch_try_fst [OF ne])
      then show ?thesis by (cases "fst (generate_batch_try e req)") auto
    qed
  qed
  then obtain x where "fst (generate_batch_try e req) = Inl x" ..
  from generate_batch_Inl [OF this] show ?thesis ..
qed

theorem engine_failure_is_500_witness:
  "filter is_valid (queries sample_request) \<noteq> [] \<and>
   engine_fails broken_engine (map PromptText (filter is_valid (queries sample_request))) \<and>
   (\<exists>x. fst (generate_batch broken_engine sample_request) =
      Inl (HTTPException 500 (str_exc broken_engine x)))"
proof -
  have "engine_fails broken_engine (map PromptText (filter is_valid (queries sample_request)))"
    by (simp add: engine_fails_def broken_engine_def echo_engine_def)
  with engine_failure_is_500 [OF sample_prompts_nonempty this] sample_prompts_nonempty
  show ?thesis by blast
qed

text \<open>
  Claim C9. For valid requests the prompt handed to the tokenizer is the PromptText of
  the request, the system prompt (empty when absent), a newline and the user prompt: as
  the elements of the prompt list in \<open>generate_batch\<close>, and as the single prompt in
  \<open>chat\<close>.
\<close>

theorem prompt_text_sent:
  "(filter is_valid (queries req) \<noteq> [] \<longrightarrow>
      (\<exists>t. snd (generate_batch e req) =
         Tokenize (Batch (map PromptText (filter is_valid (queries req)))) # t)) \<and>
   (is_valid q \<longrightarrow> (\<exists>t. snd (chat e q) = Tokenize (Single (PromptText q)) # t)) \<and>
   PromptText q = (case system_prompt q of None \<Rightarrow> [] | Some s \<Rightarrow> s) @ [10] @ user_prompt q"
proof (intro conjI impI)
  assume "filter is_valid (queries req) \<noteq> []"
  from generate_batch_trace_shape [OF this, of e]
  show "\<exists>t. snd (generate_batch e req) =
         Tokenize (Batch (map PromptText (filter is_valid (queries req)))) # t"
    by blast
next
  assume "is_valid q"
  then show "\<exists>t. snd (chat e q) = Tokenize (Single (PromptText q)) # t"
    by (intro chat_trace is_valid_chat_id is_valid_user_prompt)
next
  show "PromptText q = (case system_prompt q of None \<Rightarrow> [] | Some s \<Rightarrow> s) @ [10] @ user_prompt q"
    by (simp add: PromptText_def)
qed

theorem prompt_text_sent_witness:
  "filter is_valid (queries sample_request) \<noteq> [] \<and>
   (\<exists>t. snd (generate_batch echo_engine sample_request) =
      Tokenize (Batch [S ''be brief'' @ [10] @ S ''hi'', [10] @ S ''yo'']) # t) \<and>
   is_valid \<lparr>chat_id = S ''d'', system_prompt = None, user_prompt = S ''yo''\<rparr> \<and>
   (\<exists>t. snd (chat echo_engine \<lparr>chat_id = S ''d'', system_prompt = None, user_prompt = S ''yo''\<rparr>) =
      Tokenize (Single ([10] @ S ''yo'')) # t)"
proof -
  have v: "is_valid \<lparr>chat_id = S ''d'', system_prompt = None, user_prompt = S ''yo''\<rparr>"
    by (simp add: eval_defs)
  have p: "PromptText \<lparr>chat_id = S ''d'', system_prompt = None, user_prompt = S ''yo''\<rparr> = [10] @ S ''yo''"
    by (simp add: PromptText_def)
  from prompt_text_sent [of sample_request echo_engine
      "\<lparr>chat_id = S ''d'', system_prompt = None, user_prompt = S ''yo''\<rparr>"]
  show ?thesis
    using sample_prompts_nonempty v unfolding sample_prompts p by blast
qed

text \<open>
  Claim C10. Provided the engine returns one output row per submitted prompt, every
  dictionary of a returned list has the keys \<open>chat_id\<close> and \<open>response\<close>, or \<open>chat_id\<close> and
  \<open>error\<close>, and none has the key \<open>placeholder\<close>.
\<close>

theorem no_placeholder_survives:
  assumes "fst (generate_batch e req) = Inr rs"
    and "one_output_per_prompt e (map PromptText (filter is_valid (queries req)))"
  shows "\<forall>d\<in>set rs.
     (map fst d = [''chat_id'', ''response''] \<or> map fst d = [''chat_id'', ''error'']) \<and>
     map_of d ''placeholder'' = None"
proof
  fix d assume "d \<in> set rs"
  then obtain i where i: "i < length rs" and d: "d = rs ! i"
    by (auto simp: in_set_conv_nth)
  from assms(1) have body: "fst (generate_batch_try e req) = Inr rs"
    by (simp add: generate_batch_Inr)
  from generate_batch_try_Inr [OF body] have ne: "queries req \<noteq> []"
    and len: "length rs = length (queries req)" by simp_all
  from generate_batch_try_Inr_answers [OF body assms(2)] obtain texts where
    "filter is_valid (queries req) = [] \<or>
     engine_answers e (map PromptText (filter is_valid (queries req))) texts" ..
  from generate_batch_ok [OF ne this] assms(1) i len
  have "rs ! i =
        (if is_valid (queries req ! i) then
           [(''chat_id'', Str (chat_id (queries req ! i))),
            (''response'', Str (texts ! length (filter is_valid (take i (queries req)))))]
         else entry i (queries req ! i))"
    by auto
  then show "(map fst d = [''chat_id'', ''response''] \<or> map fst d = [''chat_id'', ''error'']) \<and>
     map_of d ''placeholder'' = None"
    unfolding d
    by (cases "is_valid (queries req ! i)") (simp_all add: entry_invalid_keys)
qed

theorem no_placeholder_survives_witness:
  "fst (generate_batch echo_engine sample_request) =
     Inr [[(''chat_id'', Str (S ''query_0'')),
           (''error'', Str (S ''chat_id is required and cannot be empty''))],
          [(''chat_id'', Str (S ''b'')), (''response'', Str (S ''be brief'' @ [10] @ S ''hi''))],
          [(''chat_id'', Str (S ''c'')),
           (''error'', Str (S ''user_prompt is required and cannot be empty''))],
          [(''chat_id'', Str (S ''d'')), (''response'', Str ([10] @ S ''yo''))]] \<and>
   one_output_per_prompt echo_engine (map PromptText (filter is_valid (queries sample_request))) \<and>
   list_all (\<lambda>d.
      (map fst d = [''chat_id'', ''response''] \<or> map fst d = [''chat_id'', ''error'']) \<and>
      map_of d ''placeholder'' = None)
     [[(''chat_id'', Str (S ''query_0'')),
           (''error'', Str (S ''chat_id is required and cannot be empty''))],
          [(''chat_id'', Str (S ''b'')), (''response'', Str (S ''be brief'' @ [10] @ S ''hi''))],
          [(''chat_id'', Str (S ''c'')),
           (''error'', Str (S ''user_prompt is required and cannot be empty''))],
          [(''chat_id'', Str (S ''d'')), (''response'', Str ([10] @ S ''yo''))]]"
proof -
  have res: "fst (generate_batch echo_engine sample_request) =
     Inr [[(''chat_id'', Str (S ''query_0'')),
           (''error'', Str (S ''chat_id is required and cannot be empty''))],
          [(''chat_id'', Str (S ''b'')), (''response'', Str (S ''be brief'' @ [10] @ S ''hi''))],
          [(''chat_id'', Str (S ''c'')),
           (''error'', Str (S ''user_prompt is required and cannot be empty''))],
          [(''chat_id'', Str (S ''d'')), (''response'', Str ([10] @ S ''yo''))]]"
    by (simp add: generate_batch_def generate_batch_try_def except_Exception_def eval_defs
        str_nat.simps)
  have one: "one_output_per_prompt echo_engine (map PromptText (filter is_valid (queries sample_request)))"
    by (simp add: one_output_per_prompt_def echo_engine_def)
  from no_placeholder_survives [OF res one] res one show ?thesis
    unfolding list_all_iff by (intro conjI)
qed

end
